theory Spec2Isabelle
  imports Complex_Main "HOL-Library.Sublist" "HOL-Library.Multiset"
begin

section \<open>Strings and character classes\<close>

text \<open>
  A JavaScript string whose code units are all below 256 is modelled as a \<open>string\<close>, one
  \<open>char\<close> per code unit. This covers every string the quiz generator works on (the
  normalizer replaces every character outside \<open>\x20-\x7E\<close> and newline by a space) and the
  buffer of \<open>extractPDFTextRaw\<close>, which is built with \<open>String.fromCharCode\<close> from bytes.
  Numbers are \<open>nat\<close> where the source counts and \<open>rat\<close> where it adds halves
  (\<open>properNouns.length * 0.5\<close>, \<open>s.length * 0.5\<close>): those values are exact in doubles.
\<close>

definition code :: "char \<Rightarrow> nat" where
  "code c = of_char c"

definition isDigit :: "char \<Rightarrow> bool" where
  \<comment> \<open>\<open>\d\<close>\<close>
  "isDigit c = (48 \<le> code c \<and> code c \<le> 57)"

definition isUpper :: "char \<Rightarrow> bool" where
  \<comment> \<open>\<open>[A-Z]\<close>\<close>
  "isUpper c = (65 \<le> code c \<and> code c \<le> 90)"

definition isLower :: "char \<Rightarrow> bool" where
  \<comment> \<open>\<open>[a-z]\<close>\<close>
  "isLower c = (97 \<le> code c \<and> code c \<le> 122)"

definition isAlpha :: "char \<Rightarrow> bool" where
  \<comment> \<open>\<open>[a-zA-Z]\<close>\<close>
  "isAlpha c = (isLower c \<or> isUpper c)"

definition isWord :: "char \<Rightarrow> bool" where
  \<comment> \<open>\<open>\w\<close>\<close>
  "isWord c = (isAlpha c \<or> isDigit c \<or> code c = 95)"

definition isSpace :: "char \<Rightarrow> bool" where
  \<comment> \<open>\<open>\s\<close> below 256: tab, line feed, vertical tab, form feed, carriage return, space,
      no-break space\<close>
  "isSpace c = ((9 \<le> code c \<and> code c \<le> 13) \<or> code c = 32 \<or> code c = 160)"

definition isTerminator :: "char \<Rightarrow> bool" where
  \<comment> \<open>\<open>[.!?]\<close>\<close>
  "isTerminator c = (c = CHR ''.'' \<or> c = CHR ''!'' \<or> c = CHR ''?'')"

definition isAny :: "char \<Rightarrow> bool" where
  \<comment> \<open>\<open>.\<close> under the \<open>s\<close> flag\<close>
  "isAny c = True"

definition isDot :: "char \<Rightarrow> bool" where
  \<comment> \<open>\<open>.\<close> without the \<open>s\<close> flag: anything but a line terminator\<close>
  "isDot c = (code c \<noteq> 10 \<and> code c \<noteq> 13)"

definition toLowerChar :: "char \<Rightarrow> char" where
  \<comment> \<open>\<open>toLowerCase\<close> on one code unit below 256: A-Z, and the Latin-1 capitals but the
      multiplication sign\<close>
  "toLowerChar c =
     (if isUpper c \<or> (192 \<le> code c \<and> code c \<le> 222 \<and> code c \<noteq> 215)
      then char_of (code c + 32) else c)"

definition toLowerCase :: "string \<Rightarrow> string" where
  "toLowerCase s = map toLowerChar s"

definition trim :: "string \<Rightarrow> string" where
  "trim s = rev (dropWhile isSpace (rev (dropWhile isSpace s)))"

fun includes_str :: "string \<Rightarrow> string \<Rightarrow> bool" where
  "includes_str [] w = (w = [])"
| "includes_str (c # cs) w = (prefix w (c # cs) \<or> includes_str cs w)"

fun join :: "string \<Rightarrow> string list \<Rightarrow> string" where
  "join sep [] = []"
| "join sep [x] = x"
| "join sep (x # y # ys) = x @ sep @ join sep (y # ys)"

definition digitChar :: "nat \<Rightarrow> char" where
  "digitChar d = char_of (48 + d)"

function numberToString :: "nat \<Rightarrow> string" where
  "numberToString n =
     (if n < 10 then [digitChar n] else numberToString (n div 10) @ [digitChar (n mod 10)])"
  by pat_completeness auto
termination
  by (relation "measure id") auto

declare numberToString.simps [simp del]

section \<open>Regular expressions\<close>

text \<open>
  A regular expression is embedded as a backtracking matcher: given the character before
  the current position (\<open>None\<close> at the start of the string) and the rest of the string,
  it returns the lengths of all the matches that start here, in the order in which the
  backtracking engine of JavaScript tries them. The first element is the match the engine
  reports.
\<close>

type_synonym 'a matcher = "char option \<Rightarrow> string \<Rightarrow> 'a list"

definition prev_at :: "char option \<Rightarrow> string \<Rightarrow> nat \<Rightarrow> char option" where
  "prev_at p r n = (if n = 0 \<or> length r < n then p else Some (r ! (n - 1)))"

definition eps :: "nat matcher" where
  "eps p r = [0]"

definition cls :: "(char \<Rightarrow> bool) \<Rightarrow> nat matcher" where
  \<comment> \<open>one character of a class\<close>
  "cls P p r = (case r of [] \<Rightarrow> [] | c # _ \<Rightarrow> if P c then [1] else [])"

definition lit :: "string \<Rightarrow> nat matcher" where
  \<comment> \<open>a literal\<close>
  "lit w p r = (if prefix w r then [length w] else [])"

definition rep_greedy :: "(char \<Rightarrow> bool) \<Rightarrow> nat \<Rightarrow> nat option \<Rightarrow> nat matcher" where
  \<comment> \<open>\<open>[P]{lo,hi}\<close>, \<open>[P]+\<close>, \<open>[P]*\<close>: the longest run first\<close>
  "rep_greedy P lo hi p r =
     (let n = length (takeWhile P r);
          m = (case hi of None \<Rightarrow> n | Some h \<Rightarrow> min n h)
      in if m < lo then [] else rev [lo..<Suc m])"

definition rep_lazy :: "(char \<Rightarrow> bool) \<Rightarrow> nat \<Rightarrow> nat option \<Rightarrow> nat matcher" where
  \<comment> \<open>\<open>[P]*?\<close>: the shortest run first\<close>
  "rep_lazy P lo hi p r =
     (let n = length (takeWhile P r);
          m = (case hi of None \<Rightarrow> n | Some h \<Rightarrow> min n h)
      in if m < lo then [] else [lo..<Suc m])"

definition seq :: "nat matcher \<Rightarrow> nat matcher \<Rightarrow> nat matcher" where
  "seq m1 m2 p r =
     concat (map (\<lambda>a. map (\<lambda>b. a + b) (m2 (prev_at p r a) (drop a r))) (m1 p r))"

definition alt :: "nat matcher \<Rightarrow> nat matcher \<Rightarrow> nat matcher" where
  "alt m1 m2 p r = m1 p r @ m2 p r"

primrec upto :: "nat \<Rightarrow> nat matcher \<Rightarrow> nat matcher" where
  \<comment> \<open>\<open>(?:m){0,k}\<close>, greedy\<close>
  "upto 0 m = eps"
| "upto (Suc k) m = alt (seq m (upto k m)) eps"

definition isWordAt :: "char option \<Rightarrow> bool" where
  "isWordAt p = (case p of None \<Rightarrow> False | Some c \<Rightarrow> isWord c)"

definition wordb :: "nat matcher" where
  \<comment> \<open>\<open>\b\<close>\<close>
  "wordb p r = (if isWordAt p \<noteq> isWordAt (case r of [] \<Rightarrow> None | c # _ \<Rightarrow> Some c) then [0] else [])"

definition bol :: "nat matcher" where
  \<comment> \<open>\<open>^\<close> without the \<open>m\<close> flag\<close>
  "bol p r = (if p = None then [0] else [])"

definition eol :: "nat matcher" where
  \<comment> \<open>\<open>$\<close> without the \<open>m\<close> flag\<close>
  "eol p r = (if r = [] then [0] else [])"

fun scan :: "'a matcher \<Rightarrow> char option \<Rightarrow> string \<Rightarrow> (nat \<times> 'a) option" where
  \<comment> \<open>the leftmost position at which the expression matches, and its first match there\<close>
  "scan m p [] = (case m p [] of [] \<Rightarrow> None | x # _ \<Rightarrow> Some (0, x))"
| "scan m p (c # cs) =
     (case m p (c # cs) of
        [] \<Rightarrow> map_option (\<lambda>(j, x). (Suc j, x)) (scan m (Some c) cs)
      | x # _ \<Rightarrow> Some (0, x))"

definition test :: "nat matcher \<Rightarrow> string \<Rightarrow> bool" where
  \<comment> \<open>\<open>RegExp.prototype.test\<close> of an expression without the \<open>g\<close> flag\<close>
  "test m s = (scan m None s \<noteq> None)"

function matches :: "('a \<Rightarrow> nat) \<Rightarrow> 'a matcher \<Rightarrow> char option \<Rightarrow> string \<Rightarrow> (string \<times> 'a) list" where
  \<comment> \<open>the successive matches of an expression with the \<open>g\<close> flag, each with the rest of
      the string from its start; \<open>len\<close> gives the length of a match. After an empty match
      the search resumes one character further\<close>
  "matches len m p r =
     (case scan m p r of
        None \<Rightarrow> []
      | Some (j, x) \<Rightarrow>
          (drop j r, x) #
            (if length r < j + max 1 (len x) then []
             else matches len m (prev_at p r (j + max 1 (len x))) (drop (j + max 1 (len x)) r)))"
  by pat_completeness auto
termination
  by (relation "measure (\<lambda>(len, m, p, r). length r)") auto

declare matches.simps [simp del]

definition match_all :: "nat matcher \<Rightarrow> string \<Rightarrow> string list" where
  \<comment> \<open>\<open>String.prototype.match\<close> with the \<open>g\<close> flag; \<open>[]\<close> stands for \<open>null\<close>\<close>
  "match_all m s = map (\<lambda>(u, n). take n u) (matches id m None s)"

function split_loop :: "nat matcher \<Rightarrow> string \<Rightarrow> nat \<Rightarrow> nat \<Rightarrow> string list" where
  \<comment> \<open>the loop of \<open>RegExp.prototype[Symbol.split]\<close>: \<open>p\<close> is the end of the last separator,
      \<open>q\<close> the position tried next\<close>
  "split_loop m s p q =
     (if q < length s then
        (case m (prev_at None s q) (drop q s) of
           [] \<Rightarrow> split_loop m s p (Suc q)
         | n # _ \<Rightarrow>
             if min (q + n) (length s) = p then split_loop m s p (Suc q)
             else take (q - p) (drop p s) #
                    split_loop m s (min (q + n) (length s)) (min (q + n) (length s)))
      else [drop p s])"
  by pat_completeness auto
termination
  by (relation "measure (\<lambda>(m, s, p, q). 2 * (length s - q) + (if p = q then 0 else 1))")
     (auto split: if_splits)

declare split_loop.simps [simp del]

definition split :: "nat matcher \<Rightarrow> string \<Rightarrow> string list" where
  \<comment> \<open>\<open>String.prototype.split\<close> with a regular expression and no limit\<close>
  "split m s = (if s = [] then (if m None [] = [] then [[]] else []) else split_loop m s 0 0)"

definition whitespace :: "nat matcher" where
  \<comment> \<open>\<open>/\s+/\<close>\<close>
  "whitespace = rep_greedy isSpace 1 None"

definition wordCount :: "string \<Rightarrow> nat" where
  \<comment> \<open>\<open>s.split(/\s+/).length\<close>\<close>
  "wordCount s = length (split whitespace s)"

section \<open>QuizGenerator: sentences\<close>

definition sentenceBreak :: "nat matcher" where
  \<comment> \<open>\<open>/[.!?]+\s+/\<close>\<close>
  "sentenceBreak = seq (rep_greedy isTerminator 1 None) (rep_greedy isSpace 1 None)"

definition letters3 :: "nat matcher" where
  \<comment> \<open>\<open>/[a-zA-Z]{3,}/\<close>\<close>
  "letters3 = rep_greedy isAlpha 3 None"

definition digit1 :: "nat matcher" where
  \<comment> \<open>\<open>/\d/g\<close>\<close>
  "digit1 = cls isDigit"

definition keepSentence :: "string \<Rightarrow> bool" where
  \<comment> \<open>the predicate of the filter in \<open>splitSentences\<close>\<close>
  "keepSentence s =
     (let wordCount = wordCount s;
          hasLetters = test letters3 s;
          notTooShort = (20 < length s);
          notTooLong = (length s < 500);
          notMostlyNumbers =
            ((of_nat (length (match_all digit1 s)) :: rat) < of_nat (length s) * (1 / 2))
      in 3 \<le> wordCount \<and> hasLetters \<and> notTooShort \<and> notTooLong \<and> notMostlyNumbers)"

definition splitSentences :: "string \<Rightarrow> string list" where
  "splitSentences text = filter keepSentence (map trim (split sentenceBreak text))"

text \<open>
  The constructor stores \<open>this.text = preprocessText(text)\<close> and
  \<open>this.sentences = splitSentences(this.text)\<close>. The model starts from the normalized
  text: \<open>newQuizGenerator\<close> builds the object from \<open>this.text\<close>.
\<close>

record quizGenerator =
  this_text :: string
  this_sentences :: "string list"

definition newQuizGenerator :: "string \<Rightarrow> quizGenerator" where
  "newQuizGenerator normalized =
     \<lparr>this_text = normalized, this_sentences = splitSentences normalized\<rparr>"

section \<open>QuizGenerator: key sentences\<close>

definition importantWords :: "string list" where
  "importantWords =
     [''define'', ''definition'', ''important'', ''key'', ''main'', ''primary'',
      ''significant'', ''crucial'', ''essential'', ''means'', ''refers to'',
      ''is a'', ''are a'', ''includes'', ''consists of'', ''theory'', ''principle'',
      ''concept'', ''method'', ''process'', ''system'', ''function'', ''purpose'']"

definition wordPoints :: "string \<Rightarrow> string \<Rightarrow> rat" where
  \<comment> \<open>what one pass of \<open>importantWords.forEach\<close> adds to the score\<close>
  "wordPoints lower word = (if includes_str lower word then 3 else 0)"

definition vocabularyScore :: "string \<Rightarrow> rat" where
  \<comment> \<open>the score after \<open>importantWords.forEach\<close>, from 0\<close>
  "vocabularyScore sentence =
     (let lower = toLowerCase sentence
      in fold (\<lambda>word score. score + wordPoints lower word) importantWords 0)"

definition properNoun :: "nat matcher" where
  \<comment> \<open>\<open>/\b[A-Z][a-z]+\b/g\<close>\<close>
  "properNoun = seq wordb (seq (cls isUpper) (seq (rep_greedy isLower 1 None) wordb))"

definition digitRun :: "nat matcher" where
  \<comment> \<open>\<open>/\d+/g\<close>\<close>
  "digitRun = rep_greedy isDigit 1 None"

definition scoreSentence :: "nat \<Rightarrow> string \<Rightarrow> rat" where
  \<comment> \<open>the body of \<open>this.sentences.map((sentence, idx) => ...)\<close>\<close>
  "scoreSentence idx sentence =
     (let score = vocabularyScore sentence;
          score = (if idx < 5 then score + 3 else if idx < 10 then score + 2 else score);
          wordCount = wordCount sentence;
          score = (if 8 \<le> wordCount \<and> wordCount \<le> 25 then score + 3
                   else if 5 \<le> wordCount \<and> wordCount \<le> 30 then score + 1 else score);
          properNouns = match_all properNoun sentence;
          score = (if properNouns \<noteq> [] then score + min (of_nat (length properNouns) * (1 / 2)) 3
                   else score);
          numbers = match_all digitRun sentence;
          score = (if 3 < length numbers then score - 2 else score);
          score = (if includes_str sentence '':'' then score + 2 else score)
      in score)"

record scoredSentence =
  s_sentence :: string
  s_score :: rat

definition scoredSentences :: "string list \<Rightarrow> scoredSentence list" where
  "scoredSentences sentences =
     map (\<lambda>(idx, s). \<lparr>s_sentence = s, s_score = scoreSentence idx s\<rparr>) (enumerate 0 sentences)"

definition sortByScore :: "scoredSentence list \<Rightarrow> scoredSentence list" where
  \<comment> \<open>\<open>sort((a, b) => b.score - a.score)\<close>: descending, and stable as \<open>Array.prototype.sort\<close> is\<close>
  "sortByScore xs = sort_key (\<lambda>a. - s_score a) xs"

definition extractKeySentences :: "quizGenerator \<Rightarrow> nat \<Rightarrow> string list" where
  "extractKeySentences this maxSentences =
     map s_sentence
       (take maxSentences
         (filter (\<lambda>s. 0 < s_score s)
           (take (maxSentences * 2) (sortByScore (scoredSentences (this_sentences this))))))"

section \<open>QuizGenerator: key terms\<close>

definition capitalizedWord :: "nat matcher" where
  \<comment> \<open>\<open>/\b[A-Z][a-z]{2,}\b/g\<close>\<close>
  "capitalizedWord = seq wordb (seq (cls isUpper) (seq (rep_greedy isLower 2 None) wordb))"

definition commonWords :: "string list" where
  "commonWords =
     [''The'', ''This'', ''That'', ''These'', ''Those'', ''There'', ''Where'',
      ''When'', ''What'', ''Which'', ''Who'', ''How'', ''Why'', ''Could'', ''Would'',
      ''Should'', ''Must'', ''May'', ''Can'', ''Will'', ''Shall'', ''Page'']"

fun increment :: "(string \<times> nat) list \<Rightarrow> string \<Rightarrow> (string \<times> nat) list" where
  \<comment> \<open>\<open>frequency[word] = (frequency[word] || 0) + 1\<close> on an object, whose keys are kept in
      the order of their insertion\<close>
  "increment [] w = [(w, 1)]"
| "increment ((k, c) # kcs) w = (if k = w then (k, c + 1) # kcs else (k, c) # increment kcs w)"

definition countWords :: "string list \<Rightarrow> (string \<times> nat) list" where
  \<comment> \<open>the object \<open>frequency\<close> after \<open>words.forEach\<close>\<close>
  "countWords words =
     fold (\<lambda>word frequency.
             if 3 < length word \<and> word \<notin> set commonWords then increment frequency word
             else frequency)
       words []"

definition extractKeyTerms :: "quizGenerator \<Rightarrow> nat \<Rightarrow> string list" where
  "extractKeyTerms this maxTerms =
     (let words = match_all capitalizedWord (this_text this);
          frequency = countWords words
      in map fst
           (take maxTerms
             (sort_key (\<lambda>(t, count). - int count)
               (filter (\<lambda>(t, count). 2 \<le> count) frequency))))"

section \<open>QuizGenerator: the quiz\<close>

datatype questionType = truefalse | mcq | fillblank

record quiz_question =
  qid :: string
  qtype :: questionType
  question :: string
  correctAnswer :: string
  options :: "string list option"

definition trueFalseQuestions :: "string list \<Rightarrow> quiz_question list" where
  "trueFalseQuestions sentences =
     (let tfSentences = take 5 (filter (\<lambda>s. 8 \<le> wordCount s \<and> wordCount s \<le> 25) sentences)
      in map (\<lambda>(idx, sentence).
                \<lparr>qid = ''tf'' @ numberToString idx, qtype = truefalse, question = trim sentence,
                 correctAnswer = ''true'', options = Some [''True'', ''False'']\<rparr>)
           (enumerate 0 tfSentences))"

definition capitalized :: "nat matcher" where
  \<comment> \<open>\<open>[A-Z][a-z]+\<close>\<close>
  "capitalized = seq (cls isUpper) (rep_greedy isLower 1 None)"

definition termPhrase :: "nat matcher" where
  \<comment> \<open>\<open>[A-Z][a-z]+(?:\s+[A-Z][a-z]+){0,3}\<close>\<close>
  "termPhrase = seq capitalized (upto 3 (seq whitespace capitalized))"

definition copula :: "nat matcher" where
  \<comment> \<open>\<open>(?:is|are|refers to|means|defines?)\<close>\<close>
  "copula =
     alt (lit ''is'') (alt (lit ''are'') (alt (lit ''refers to'') (alt (lit ''means'')
       (seq (lit ''define'') (alt (lit ''s'') eps)))))"

definition definitionClause :: "nat matcher" where
  \<comment> \<open>\<open>[^.!?]{10,100}\<close>\<close>
  "definitionClause = rep_greedy (\<lambda>c. \<not> isTerminator c) 10 (Some 100)"

definition definitionPattern :: "(nat \<times> nat \<times> nat) matcher" where
  "definitionPattern p r =
     concat (map (\<lambda>a.
       concat (map (\<lambda>b.
         map (\<lambda>c. (a, b, c)) (definitionClause (prev_at p r (a + b)) (drop (a + b) r)))
         (seq whitespace (seq copula whitespace) (prev_at p r a) (drop a r))))
       (termPhrase p r))"

text \<open>
  \<open>random k\<close> is the value of the \<open>k\<close>-th call of \<open>Math.random()\<close>, a number in
  \<open>[0, 1)\<close>; the model counts the calls. The loop \<open>for (i = options.length - 1; i > 0; i--)\<close>
  swaps \<open>options[i]\<close> and \<open>options[j]\<close> with \<open>j = Math.floor(Math.random() * (i + 1))\<close>.
  The model takes the product exactly. The program rounds it to a double before
  \<open>Math.floor\<close>, which gives another \<open>j\<close> for a few values of \<open>Math.random()\<close>
  (\<open>0.6666666666666666 * 3\<close> is \<open>2\<close> in doubles) and leaves \<open>j\<close> between \<open>0\<close> and \<open>i\<close>:
  the order of the options can differ there, the options cannot.
\<close>

fun shuffleLoop :: "(nat \<Rightarrow> rat) \<Rightarrow> nat \<Rightarrow> nat \<Rightarrow> string list \<Rightarrow> string list" where
  "shuffleLoop random k 0 opts = opts"
| "shuffleLoop random k (Suc i) opts =
     (let j = nat \<lfloor>random k * of_nat (Suc i + 1)\<rfloor>
      in shuffleLoop random (k + 1) i (opts[Suc i := opts ! j, j := opts ! Suc i]))"

definition shuffle :: "(nat \<Rightarrow> rat) \<Rightarrow> nat \<Rightarrow> string list \<Rightarrow> string list" where
  "shuffle random k opts = shuffleLoop random k (length opts - 1) opts"

lemma prev_at_Cons: "j \<le> length cs \<Longrightarrow> prev_at p (c # cs) (Suc j) = prev_at (Some c) cs j"
  by (cases j) (auto simp: prev_at_def)

lemma scan_Some:
  "scan m p r = Some (j, x) \<Longrightarrow> j \<le> length r \<and> (\<exists>xs. m (prev_at p r j) (drop j r) = x # xs)"
proof (induction r arbitrary: p j)
  case Nil
  then show ?case by (auto simp: prev_at_def split: list.splits)
next
  case (Cons c cs)
  show ?case
  proof (cases "m p (c # cs)")
    case Nil
    with Cons.prems obtain j' where j': "scan m (Some c) cs = Some (j', x)" "j = Suc j'"
      by auto
    from Cons.IH[OF j'(1)] show ?thesis
      using j'(2) by (simp add: prev_at_Cons)
  next
    case (Cons y ys)
    with Cons.prems show ?thesis by (auto simp: prev_at_def)
  qed
qed

lemma rep_greedy_bounds:
  "n \<in> set (rep_greedy P lo hi p r) \<Longrightarrow> lo \<le> n \<and> n \<le> length (takeWhile P r)"
  by (auto simp: rep_greedy_def Let_def split: if_splits option.splits)

lemma definitionPattern_bounds:
  assumes "(a, b, c) \<in> set (definitionPattern p r)"
  shows "10 \<le> c \<and> a + b + c \<le> length r"
proof -
  from assms have "c \<in> set (definitionClause (prev_at p r (a + b)) (drop (a + b) r))"
    by (auto simp: definitionPattern_def)
  then have "10 \<le> c" "c \<le> length (takeWhile (\<lambda>c. \<not> isTerminator c) (drop (a + b) r))"
    using rep_greedy_bounds unfolding definitionClause_def by blast+
  moreover have "length (takeWhile (\<lambda>c. \<not> isTerminator c) (drop (a + b) r)) \<le> length r - (a + b)"
    using length_takeWhile_le[of "\<lambda>c. \<not> isTerminator c" "drop (a + b) r"] by simp
  ultimately show ?thesis by linarith
qed

lemma scan_definitionPattern:
  assumes "scan definitionPattern p r = Some (j, a, b, c)"
  shows "10 \<le> c \<and> j + a + b + c \<le> length r"
proof -
  from scan_Some[OF assms] obtain xs where
    j: "j \<le> length r" and m: "definitionPattern (prev_at p r j) (drop j r) = (a, b, c) # xs"
    by blast
  from m have "(a, b, c) \<in> set (definitionPattern (prev_at p r j) (drop j r))" by simp
  from definitionPattern_bounds[OF this] j show ?thesis by simp arith
qed

definition distractor1 :: "string \<Rightarrow> string" where
  "distractor1 definition =
     (let words = split whitespace definition;
          midPoint = length words div 2
      in join '' '' (take midPoint words) @ '' (incorrect)'')"

definition distractor2 :: "string \<Rightarrow> string" where
  "distractor2 definition =
     (let words = split whitespace definition;
          midPoint = length words div 2
      in join '' '' (drop midPoint words) @ '' (incorrect)'')"

text \<open>
  The loop \<open>while ((match = definitionPattern.exec(this.text)) && mcqCount < 5)\<close>: the
  expression has the \<open>g\<close> flag, so each \<open>exec\<close> resumes at \<open>lastIndex\<close>, the end of the
  match before. \<open>p\<close> and \<open>r\<close> are the character before \<open>lastIndex\<close> and the text from it.
\<close>

function mcqLoop :: "(nat \<Rightarrow> rat) \<Rightarrow> nat \<Rightarrow> char option \<Rightarrow> string \<Rightarrow> nat \<Rightarrow> quiz_question list" where
  "mcqLoop random k p r mcqCount =
     (case scan definitionPattern p r of
        None \<Rightarrow> []
      | Some (j, a, b, c) \<Rightarrow>
          if mcqCount < 5 then
            (let term = trim (take a (drop j r));
                 definition = trim (take c (drop (j + a + b) r));
                 lastIndex = j + a + b + c
             in if wordCount definition < 3
                then mcqLoop random k (prev_at p r lastIndex) (drop lastIndex r) mcqCount
                else
                  (let distractor1 = distractor1 definition;
                       distractor2 = distractor2 definition;
                       distractor3 = ''None of the above'';
                       opts = shuffle random k [definition, distractor1, distractor2, distractor3]
                   in \<lparr>qid = ''mcq'' @ numberToString mcqCount, qtype = mcq,
                       question = ''What is '' @ term @ ''?'',
                       correctAnswer = definition, options = Some opts\<rparr> #
                      mcqLoop random (k + 3) (prev_at p r lastIndex) (drop lastIndex r)
                        (mcqCount + 1)))
          else [])"
  by pat_completeness auto
termination
  by (relation "measure (\<lambda>(random, k, p, r, mcqCount). length r)")
     (auto dest!: scan_definitionPattern)

declare mcqLoop.simps [simp del]

definition multipleChoiceQuestions :: "(nat \<Rightarrow> rat) \<Rightarrow> string \<Rightarrow> quiz_question list" where
  "multipleChoiceQuestions random text = mcqLoop random 0 None text 0"

definition alphabetic :: "nat matcher" where
  \<comment> \<open>\<open>/^[a-zA-Z]+$/\<close>\<close>
  "alphabetic = seq bol (seq (rep_greedy isAlpha 1 None) eol)"

definition meaningfulWords :: "string list \<Rightarrow> (string \<times> nat) list" where
  \<comment> \<open>the words of a sentence with their indices, filtered and sorted (stably) by descending
      length\<close>
  "meaningfulWords words =
     sort_key (\<lambda>(word, index). - int (length word))
       (filter (\<lambda>(word, index). 4 < length word \<and> test alphabetic word)
         (map (\<lambda>(i, w). (w, i)) (enumerate 0 words)))"

definition fillBlankQuestion :: "nat \<Rightarrow> string \<Rightarrow> quiz_question list" where
  \<comment> \<open>the body of \<open>fibSentences.forEach((sentence, idx) => ...)\<close>: the questions it pushes\<close>
  "fillBlankQuestion idx sentence =
     (let words = split whitespace sentence
      in case meaningfulWords words of
           [] \<Rightarrow> []
         | (w, blankIdx) # _ \<Rightarrow>
             (let correctWord = words ! blankIdx;
                  questionText =
                    join '' '' (map (\<lambda>(i, w). if i = blankIdx then ''______'' else w)
                                 (enumerate 0 words))
              in [\<lparr>qid = ''fib'' @ numberToString idx, qtype = fillblank,
                   question = questionText,
                   correctAnswer = filter isLower (toLowerCase correctWord),
                   options = None\<rparr>]))"

definition fillBlankQuestions :: "string list \<Rightarrow> quiz_question list" where
  "fillBlankQuestions sentences =
     (let fibSentences =
            take 5 (filter (\<lambda>s. let words = split whitespace s
                                 in 8 \<le> length words \<and> length words \<le> 20) sentences)
      in concat (map (\<lambda>(idx, sentence). fillBlankQuestion idx sentence)
                   (enumerate 0 fibSentences)))"

definition generateQuiz :: "quizGenerator \<Rightarrow> (nat \<Rightarrow> rat) \<Rightarrow> quiz_question list" where
  \<comment> \<open>\<open>questions\<close> receives the three groups in this order; \<open>questions.slice(0, 10)\<close>\<close>
  "generateQuiz this random =
     take 10
       (trueFalseQuestions (this_sentences this) @
        multipleChoiceQuestions random (this_text this) @
        fillBlankQuestions (this_sentences this))"

section \<open>Grading\<close>







datatype inputElement =
  RadioInput bool string string
| TextInput string string

fun gradeInput :: "inputElement \<Rightarrow> bool \<Rightarrow> bool" where
  \<comment> \<open>the body of \<open>inputs.forEach(input => ...)\<close>, as a change of \<open>isCorrect\<close>\<close>
  "gradeInput (RadioInput checked v d) isCorrect = (if checked then d = ''true'' else isCorrect)"
| "gradeInput (TextInput v d) isCorrect =
     (let normalized = filter isLower (toLowerCase v);
          correctAnswer = d
      in normalized = correctAnswer)"

definition gradeQuestion :: "inputElement list \<Rightarrow> bool" where
  \<comment> \<open>\<open>isCorrect\<close> after the loop over the inputs found in one question element\<close>
  "gradeQuestion inputs = fold gradeInput inputs False"

subsection \<open>A sentence that carries markup\<close>




section \<open>Text from a PDF\<close>

definition btPattern :: "(nat \<times> nat \<times> nat) matcher" where
  \<comment> \<open>\<open>/BT\s+(.*?)\s+ET/gs\<close>: the lengths of \<open>BT\s+\<close>, of the group and of \<open>\s+ET\<close>\<close>
  "btPattern p r =
     concat (map (\<lambda>a.
       concat (map (\<lambda>c.
         map (\<lambda>d. (a, c, d))
           (seq whitespace (lit ''ET'') (prev_at p r (a + c)) (drop (a + c) r)))
         (rep_lazy isAny 0 None (prev_at p r a) (drop a r))))
       (seq (lit ''BT'') whitespace p r))"

definition parenthesized :: "nat matcher" where
  \<comment> \<open>\<open>/\((.*?)\)/g\<close>\<close>
  "parenthesized = seq (lit ''('') (seq (rep_lazy isDot 0 None) (lit '')''))"

definition star :: "nat matcher \<Rightarrow> nat matcher" where
  \<comment> \<open>\<open>(?:m)*\<close>, greedy, for an \<open>m\<close> that matches no empty string: a repetition takes at
      least one character, so there are no more of them than characters left\<close>
  "star m p r = upto (length r) m p r"

definition readablePattern :: "nat matcher" where
  \<comment> \<open>\<open>/[A-Za-z]{3,}(?:\s+[A-Za-z]{3,})*/g\<close>\<close>
  "readablePattern = seq letters3 (star (seq whitespace letters3))"

definition primaryText :: "string \<Rightarrow> string" where
  \<comment> \<open>Method 1: \<open>extractedText\<close> after the loop over \<open>binaryText.matchAll(btPattern)\<close>\<close>
  "primaryText binaryText =
     concat (map (\<lambda>(u, (a, c, d)).
                    let content = take c (drop a u);
                        textMatches = match_all parenthesized content
                    in concat (map (\<lambda>tm. butlast (tl tm) @ '' '') textMatches))
              (matches (\<lambda>(a, c, d). a + c + d) btPattern None binaryText))"

definition extractedText :: "string \<Rightarrow> string" where
  \<comment> \<open>\<open>extractedText\<close> of \<open>extractPDFTextRaw\<close> after Method 2, before the clean-up\<close>
  "extractedText binaryText =
     (let primary = primaryText binaryText
      in if length primary < 100 then
           (let readableMatches = match_all readablePattern binaryText
            in if readableMatches \<noteq> [] then join '' '' readableMatches else primary)
         else primary)"

definition constantRandom :: "rat \<Rightarrow> nat \<Rightarrow> rat" where
  \<comment> \<open>a source of random numbers that returns the same number at every call\<close>
  "constantRandom u k = u"

section \<open>Notions of the specification\<close>

definition occurrences :: "string \<Rightarrow> string \<Rightarrow> nat" where
  \<comment> \<open>the number of positions of \<open>s\<close> at which \<open>w\<close> occurs\<close>
  "occurrences w s = length (filter (\<lambda>i. prefix w (drop i s)) [0..<Suc (length s)])"

definition lowercaseWord :: "nat matcher" where
  \<comment> \<open>\<open>/^[a-z]+$/\<close>\<close>
  "lowercaseWord = seq bol (seq (rep_greedy isLower 1 None) eol)"

definition digitCount :: "string \<Rightarrow> nat" where
  \<comment> \<open>the number of digit characters\<close>
  "digitCount s = length (filter isDigit s)"

definition hasAlphaRun :: "string \<Rightarrow> bool" where
  \<comment> \<open>a run of at least 3 consecutive alphabetic characters somewhere\<close>
  "hasAlphaRun s = (\<exists>u v w. s = u @ v @ w \<and> 3 \<le> length v \<and> list_all isAlpha v)"

definition spec_retained :: "string \<Rightarrow> bool" where
  \<comment> \<open>the conditions of the specification on a retained sentence\<close>
  "spec_retained s =
     (3 \<le> wordCount s \<and> hasAlphaRun s \<and> 20 < length s \<and> length s < 500 \<and>
      (of_nat (digitCount s) :: rat) < (1 / 2) * of_nat (length s))"

definition firstIndex :: "string list \<Rightarrow> string \<Rightarrow> nat" where
  \<comment> \<open>the position at which a token is first encountered\<close>
  "firstIndex ws t = length (takeWhile (\<lambda>w. w \<noteq> t) ws)"

definition counted :: "string \<Rightarrow> bool" where
  \<comment> \<open>the condition of \<open>words.forEach\<close> under which a word is counted\<close>
  "counted word = (3 < length word \<and> word \<notin> set commonWords)"

section \<open>Properties of the quiz\<close>

subsection \<open>The loop over the definitions\<close>

lemma mcqLoop_cases [consumes 0, case_names Done Stop Skip Push]:
  assumes "scan definitionPattern p r = None \<Longrightarrow> mcqLoop random k p r n = [] \<Longrightarrow> P"
    and "\<And>m. scan definitionPattern p r = Some m \<Longrightarrow> \<not> n < 5 \<Longrightarrow> mcqLoop random k p r n = [] \<Longrightarrow> P"
    and "\<And>j a b c. scan definitionPattern p r = Some (j, a, b, c) \<Longrightarrow> n < 5 \<Longrightarrow>
           wordCount (trim (take c (drop (j + a + b) r))) < 3 \<Longrightarrow>
           mcqLoop random k p r n =
             mcqLoop random k (prev_at p r (j + a + b + c)) (drop (j + a + b + c) r) n \<Longrightarrow> P"
    and "\<And>j a b c d. scan definitionPattern p r = Some (j, a, b, c) \<Longrightarrow> n < 5 \<Longrightarrow>
           d = trim (take c (drop (j + a + b) r)) \<Longrightarrow> \<not> wordCount d < 3 \<Longrightarrow>
           mcqLoop random k p r n =
             \<lparr>qid = ''mcq'' @ numberToString n, qtype = mcq,
              question = ''What is '' @ trim (take a (drop j r)) @ ''?'',
              correctAnswer = d,
              options = Some (shuffle random k [d, distractor1 d, distractor2 d, ''None of the above''])\<rparr> #
             mcqLoop random (k + 3) (prev_at p r (j + a + b + c)) (drop (j + a + b + c) r) (n + 1) \<Longrightarrow> P"
  shows P
proof (cases "scan definitionPattern p r")
  case None
  have "mcqLoop random k p r n = []"
    by (subst mcqLoop.simps) (simp add: None)
  with assms(1)[OF None] show ?thesis .
next
  case (Some m)
  obtain j a b c where m: "m = (j, a, b, c)" by (cases m) auto
  show ?thesis
  proof (cases "n < 5")
    case False
    have "mcqLoop random k p r n = []"
      by (subst mcqLoop.simps) (simp add: Some m False)
    with assms(2)[OF Some False] show ?thesis .
  next
    case True
    show ?thesis
    proof (cases "wordCount (trim (take c (drop (j + a + b) r))) < 3")
      case w: True
      have "mcqLoop random k p r n =
             mcqLoop random k (prev_at p r (j + a + b + c)) (drop (j + a + b + c) r) n"
        by (subst mcqLoop.simps) (simp add: Some m True w Let_def)
      with assms(3)[OF Some[unfolded m] True w] show ?thesis .
    next
      case w: False
      have "mcqLoop random k p r n =
             \<lparr>qid = ''mcq'' @ numberToString n, qtype = mcq,
              question = ''What is '' @ trim (take a (drop j r)) @ ''?'',
              correctAnswer = trim (take c (drop (j + a + b) r)),
              options = Some (shuffle random k [trim (take c (drop (j + a + b) r)),
                 distractor1 (trim (take c (drop (j + a + b) r))),
                 distractor2 (trim (take c (drop (j + a + b) r))), ''None of the above''])\<rparr> #
             mcqLoop random (k + 3) (prev_at p r (j + a + b + c)) (drop (j + a + b + c) r) (n + 1)"
        by (subst mcqLoop.simps) (simp add: Some m True w Let_def)
      with assms(4)[OF Some[unfolded m] True refl w] show ?thesis .
    qed
  qed
qed

lemma mcqLoop_measure:
  "scan definitionPattern p r = Some (j, a, b, c) \<Longrightarrow> length (drop (j + a + b + c) r) < length r"
  by (drule scan_definitionPattern) (simp, arith)

lemma mcqLoop_qtype: "q \<in> set (mcqLoop random k p r n) \<Longrightarrow> qtype q = mcq"
proof (induction "length r" arbitrary: random k p r n rule: less_induct)
  case less
  show ?case
  proof (cases rule: mcqLoop_cases[of p r random k n])
    case Done
    with less.prems show ?thesis by simp
  next
    case (Stop m)
    with less.prems show ?thesis by simp
  next
    case (Skip j a b c)
    from less.hyps[OF mcqLoop_measure[OF Skip(1)]] less.prems Skip(4) show ?thesis by simp
  next
    case (Push j a b c d)
    from less.hyps[OF mcqLoop_measure[OF Push(1)]] less.prems Push(5) show ?thesis by auto
  qed
qed

lemma mcqLoop_length: "length (mcqLoop random k p r n) \<le> 5 - n"
proof (induction "length r" arbitrary: random k p r n rule: less_induct)
  case less
  show ?case
  proof (cases rule: mcqLoop_cases[of p r random k n])
    case Done
    then show ?thesis by simp
  next
    case (Stop m)
    then show ?thesis by simp
  next
    case (Skip j a b c)
    from less.hyps[OF mcqLoop_measure[OF Skip(1)], of random k "prev_at p r (j + a + b + c)" n]
      Skip(4) show ?thesis by simp
  next
    case (Push j a b c d)
    from less.hyps[OF mcqLoop_measure[OF Push(1)], of random "k + 3" "prev_at p r (j + a + b + c)" "n + 1"]
      Push(5) Push(2) show ?thesis by simp
  qed
qed

lemma trueFalseQuestions_elem:
  "q \<in> set (trueFalseQuestions ss) \<Longrightarrow>
     qtype q = truefalse \<and> correctAnswer q = ''true'' \<and> options q = Some [''True'', ''False'']"
  by (auto simp: trueFalseQuestions_def Let_def)

lemma trueFalseQuestions_length: "length (trueFalseQuestions ss) \<le> 5"
  by (simp add: trueFalseQuestions_def Let_def)

lemma fillBlankQuestion_qtype: "q \<in> set (fillBlankQuestion idx s) \<Longrightarrow> qtype q = fillblank"
  by (auto simp: fillBlankQuestion_def Let_def split: list.splits)

lemma fillBlankQuestion_length: "length (fillBlankQuestion idx s) \<le> Suc 0"
  by (auto simp: fillBlankQuestion_def Let_def split: list.splits)

lemma fillBlankQuestions_qtype: "q \<in> set (fillBlankQuestions ss) \<Longrightarrow> qtype q = fillblank"
  by (auto simp: fillBlankQuestions_def Let_def dest: fillBlankQuestion_qtype)

lemma length_concat_le:
  assumes "\<And>x. x \<in> set xs \<Longrightarrow> length (f x) \<le> Suc 0"
  shows "length (concat (map f xs)) \<le> length xs"
  using assms
proof (induction xs)
  case Nil
  then show ?case by simp
next
  case (Cons x xs)
  have "length (f x) \<le> Suc 0" using Cons.prems by simp
  moreover have "length (concat (map f xs)) \<le> length xs"
    using Cons.IH Cons.prems by simp
  ultimately show ?case by simp
qed

lemma fillBlankQuestions_length: "length (fillBlankQuestions ss) \<le> 5"
proof -
  let ?fs = "take 5 (filter (\<lambda>s. let words = split whitespace s
                                 in 8 \<le> length words \<and> length words \<le> 20) ss)"
  have "length (fillBlankQuestions ss) \<le> length (enumerate 0 ?fs)"
    unfolding fillBlankQuestions_def Let_def
    by (rule length_concat_le) (auto simp: fillBlankQuestion_length split: prod.splits)
  also have "\<dots> \<le> 5" by simp
  finally show ?thesis .
qed

lemma generateQuiz_elem:
  assumes "q \<in> set (generateQuiz this random)"
  shows "q \<in> set (trueFalseQuestions (this_sentences this)) \<or>
         q \<in> set (multipleChoiceQuestions random (this_text this)) \<or>
         q \<in> set (fillBlankQuestions (this_sentences this))"
  using in_set_takeD[OF assms[unfolded generateQuiz_def]] by auto

lemma generateQuiz_example:
  "generateQuiz (newQuizGenerator ''one two three four five six seven eight'') (\<lambda>_. 0) =
     [\<lparr>qid = ''tf0'', qtype = truefalse, question = ''one two three four five six seven eight'',
        correctAnswer = ''true'', options = Some [''True'', ''False'']\<rparr>,
      \<lparr>qid = ''fib0'', qtype = fillblank,
        question = ''one two ______ four five six seven eight'',
        correctAnswer = ''three'', options = None\<rparr>]"
  by code_simp

subsection \<open>True/false questions\<close>

text \<open>
  C5. Every true/false question of the quiz has \<open>correctAnswer\<close> equal to the string
  \<open>"true"\<close> and the options \<open>["True", "False"]\<close>; no true/false question has the
  correct answer \<open>"false"\<close>.
\<close>

theorem trueFalse_always_true:
  assumes "q \<in> set (generateQuiz this random)" and "qtype q = truefalse"
  shows "correctAnswer q = ''true'' \<and> options q = Some [''True'', ''False''] \<and>
         correctAnswer q \<noteq> ''false''"
proof -
  from generateQuiz_elem[OF assms(1)] have "q \<in> set (trueFalseQuestions (this_sentences this))"
    using assms(2) mcqLoop_qtype[of q random 0 None "this_text this" 0] fillBlankQuestions_qtype[of q]
    by (auto simp: multipleChoiceQuestions_def)
  from trueFalseQuestions_elem[OF this] show ?thesis by simp
qed

theorem trueFalse_always_true_witness:
  "\<exists>q \<in> set (generateQuiz (newQuizGenerator ''one two three four five six seven eight'') (\<lambda>_. 0)).
     qtype q = truefalse \<and> question q = ''one two three four five six seven eight'' \<and>
     correctAnswer q = ''true'' \<and> options q = Some [''True'', ''False'']"
proof -
  let ?qs = "generateQuiz (newQuizGenerator ''one two three four five six seven eight'') (\<lambda>_. 0)"
  let ?q = "hd ?qs"
  have m: "?q \<in> set ?qs" by (simp add: generateQuiz_example)
  have t: "qtype ?q = truefalse" by (simp add: generateQuiz_example)
  have s: "question ?q = ''one two three four five six seven eight''"
    by (simp add: generateQuiz_example)
  from trueFalse_always_true[OF m t] t s m show ?thesis by blast
qed

subsection \<open>The three groups and the cap\<close>

text \<open>
  C4. \<open>generateQuiz\<close> returns at most 10 questions: the true/false questions (at most 5),
  then the multiple-choice questions (at most 5), then the fill-in-the-blank questions
  (at most 5), cut to the first 10 of that concatenation.
\<close>

theorem generateQuiz_concat_caps:
  "generateQuiz this random =
     take 10 (trueFalseQuestions (this_sentences this) @
              multipleChoiceQuestions random (this_text this) @
              fillBlankQuestions (this_sentences this)) \<and>
   length (trueFalseQuestions (this_sentences this)) \<le> 5 \<and>
   length (multipleChoiceQuestions random (this_text this)) \<le> 5 \<and>
   length (fillBlankQuestions (this_sentences this)) \<le> 5 \<and>
   length (generateQuiz this random) \<le> 10"
  using mcqLoop_length[of random 0 None "this_text this" 0]
  by (simp add: generateQuiz_def multipleChoiceQuestions_def trueFalseQuestions_length
      fillBlankQuestions_length)


section \<open>The lowercase letters\<close>

lemma lower_codes: "\<forall>n \<in> set [97..<123]. (char_of (n::nat) :: char) \<in> set ''abcdefghijklmnopqrstuvwxyz''"
  by code_simp

lemma lower_letters: "list_all isLower ''abcdefghijklmnopqrstuvwxyz''"
  by code_simp

lemma isLower_iff: "isLower c \<longleftrightarrow> c \<in> set ''abcdefghijklmnopqrstuvwxyz''"
proof
  assume "isLower c"
  then have "code c \<in> set [97..<123]" unfolding set_upt by (simp add: isLower_def)
  with lower_codes have "(char_of (code c) :: char) \<in> set ''abcdefghijklmnopqrstuvwxyz''"
    by blast
  then show "c \<in> set ''abcdefghijklmnopqrstuvwxyz''" by (simp add: code_def)
next
  assume "c \<in> set ''abcdefghijklmnopqrstuvwxyz''"
  with lower_letters show "isLower c" unfolding list_all_iff by blast
qed


section \<open>Properties of the text taken from a PDF\<close>

text \<open>
  C9, as amended. The scan of the whole buffer for runs of letters replaces the text of
  the BT/ET groups exactly when that text is shorter than 100 characters and the scan
  finds at least one match; the text is then the matches joined by spaces. When the scan
  finds nothing, the short text of the BT/ET groups is kept.
\<close>

theorem extractedText_policy:
  "extractedText binaryText =
     (if length (primaryText binaryText) < 100 \<and> match_all readablePattern binaryText \<noteq> []
      then join '' '' (match_all readablePattern binaryText)
      else primaryText binaryText)"
  by (simp add: extractedText_def Let_def)

text \<open>
  C9 as stated fails on the buffer \<open>BT (12) ET\<close>: the text of the BT/ET groups is \<open>"12 "\<close>,
  shorter than 100 characters, the scan finds no run of three letters, and the text stays
  \<open>"12 "\<close> instead of the empty join of the matches.
\<close>

theorem extractedText_counterexample:
  "length (primaryText ''BT (12) ET'') < 100 \<and>
   match_all readablePattern ''BT (12) ET'' = [] \<and>
   extractedText ''BT (12) ET'' = ''12 '' \<and>
   extractedText ''BT (12) ET'' \<noteq> join '' '' (match_all readablePattern ''BT (12) ET'')"
  by code_simp

text \<open>
  Where the scan finds runs of letters, they replace a short text of the BT/ET groups.
\<close>

lemma extractedText_example:
  "primaryText ''BT (Hello) Tj ET endstream'' = ''Hello '' \<and>
   match_all readablePattern ''BT (Hello) Tj ET endstream'' = [''Hello'', ''endstream''] \<and>
   extractedText ''BT (Hello) Tj ET endstream'' = ''Hello endstream''"
  by code_simp

section \<open>Properties of the sentence scores\<close>

lemma includes_str_iff: "includes_str s w \<longleftrightarrow> (\<exists>i \<le> length s. prefix w (drop i s))"
proof (induction s)
  case Nil
  then show ?case by auto
next
  case (Cons c cs)
  have "(\<exists>i \<le> length (c # cs). prefix w (drop i (c # cs))) \<longleftrightarrow>
        prefix w (c # cs) \<or> (\<exists>i \<le> length cs. prefix w (drop i cs))"
  proof
    assume "\<exists>i \<le> length (c # cs). prefix w (drop i (c # cs))"
    then obtain i where i: "i \<le> length (c # cs)" "prefix w (drop i (c # cs))" by blast
    show "prefix w (c # cs) \<or> (\<exists>i \<le> length cs. prefix w (drop i cs))"
    proof (cases i)
      case 0
      with i show ?thesis by simp
    next
      case (Suc k)
      with i show ?thesis by auto
    qed
  next
    assume "prefix w (c # cs) \<or> (\<exists>i \<le> length cs. prefix w (drop i cs))"
    then show "\<exists>i \<le> length (c # cs). prefix w (drop i (c # cs))"
    proof
      assume "prefix w (c # cs)"
      then have "prefix w (drop 0 (c # cs))" by simp
      then show ?thesis by blast
    next
      assume "\<exists>i \<le> length cs. prefix w (drop i cs)"
      then obtain i where "i \<le> length cs" "prefix w (drop i cs)" by blast
      then have "Suc i \<le> length (c # cs)" "prefix w (drop (Suc i) (c # cs))" by simp_all
      then show ?thesis by blast
    qed
  qed
  with Cons.IH show ?case by simp
qed

lemma occurrences_pos: "0 < occurrences w s \<longleftrightarrow> includes_str s w"
proof -
  have "0 < occurrences w s \<longleftrightarrow> (\<exists>i \<in> set [0..<Suc (length s)]. prefix w (drop i s))"
    unfolding occurrences_def by (simp add: filter_empty_conv del: upt_Suc)
  also have "\<dots> \<longleftrightarrow> (\<exists>i \<le> length s. prefix w (drop i s))"
    by (auto simp: less_Suc_eq_le simp del: upt_Suc)
  finally show ?thesis by (simp add: includes_str_iff)
qed

lemma fold_wordPoints:
  "fold (\<lambda>word score. score + wordPoints lower word) ws acc =
     acc + 3 * of_nat (length (filter (\<lambda>w. 0 < occurrences w lower) ws))"
  by (induction ws arbitrary: acc) (auto simp: wordPoints_def occurrences_pos algebra_simps)

text \<open>
  C1, as amended. The vocabulary adds 3 points for each of its 23 terms that occurs at
  least once in the lowercased sentence, however often it occurs there.
\<close>

theorem vocabulary_once_per_term:
  "vocabularyScore sentence =
     3 * of_nat (length (filter (\<lambda>w. 0 < occurrences w (toLowerCase sentence)) importantWords)) \<and>
   wordPoints (toLowerCase sentence) word =
     (if 0 < occurrences word (toLowerCase sentence) then 3 else 0) \<and>
   length importantWords = 23"
proof -
  have "length importantWords = 23" by (simp add: importantWords_def)
  moreover have "vocabularyScore sentence =
     3 * of_nat (length (filter (\<lambda>w. 0 < occurrences w (toLowerCase sentence)) importantWords))"
    by (simp add: vocabularyScore_def Let_def fold_wordPoints)
  moreover have "wordPoints (toLowerCase sentence) word =
     (if 0 < occurrences word (toLowerCase sentence) then 3 else 0)"
    by (simp add: wordPoints_def occurrences_pos)
  ultimately show ?thesis by blast
qed

text \<open>
  C1 as stated fails on a sentence with the term \<open>key\<close> twice: the term adds 3 points,
  not 6.
\<close>

theorem vocabulary_counterexample:
  "occurrences ''key'' (toLowerCase ''the key idea is the key to this proof'') = 2 \<and>
   wordPoints (toLowerCase ''the key idea is the key to this proof'') ''key'' = 3 \<and>
   wordPoints (toLowerCase ''the key idea is the key to this proof'') ''key'' \<noteq>
     3 * of_nat (occurrences ''key'' (toLowerCase ''the key idea is the key to this proof'')) \<and>
   vocabularyScore ''the key idea is the key to this proof'' = 3"
  by code_simp


section \<open>Properties of the regular expressions\<close>

lemma scan_None_iff:
  "scan m p r = None \<longleftrightarrow> (\<forall>j \<le> length r. m (prev_at p r j) (drop j r) = [])"
proof (induction r arbitrary: p)
  case Nil
  then show ?case by (auto simp: prev_at_def split: list.splits)
next
  case (Cons c cs)
  have "(\<forall>j \<le> length (c # cs). m (prev_at p (c # cs) j) (drop j (c # cs)) = []) \<longleftrightarrow>
        m p (c # cs) = [] \<and> (\<forall>j \<le> length cs. m (prev_at (Some c) cs j) (drop j cs) = [])"
    (is "?L \<longleftrightarrow> ?R")
  proof
    assume l: ?L
    have "m (prev_at p (c # cs) 0) (drop 0 (c # cs)) = []" using l by blast
    then have a: "m p (c # cs) = []" by (simp add: prev_at_def)
    have "m (prev_at (Some c) cs j) (drop j cs) = []" if "j \<le> length cs" for j
    proof -
      from l that have "m (prev_at p (c # cs) (Suc j)) (drop (Suc j) (c # cs)) = []"
        by (metis Suc_le_mono length_Cons)
      then show ?thesis using that by (simp add: prev_at_Cons)
    qed
    with a show ?R by blast
  next
    assume r: ?R
    show ?L
    proof (intro allI impI)
      fix j assume j: "j \<le> length (c # cs)"
      show "m (prev_at p (c # cs) j) (drop j (c # cs)) = []"
      proof (cases j)
        case 0
        with r show ?thesis by (simp add: prev_at_def)
      next
        case (Suc k)
        with j r show ?thesis by (simp add: prev_at_Cons)
      qed
    qed
  qed
  with Cons.IH show ?case by (auto split: list.splits)
qed

lemma test_iff: "test m s \<longleftrightarrow> (\<exists>j \<le> length s. m (prev_at None s j) (drop j s) \<noteq> [])"
  by (simp add: test_def scan_None_iff)

lemma rep_greedy_nonempty:
  "rep_greedy P lo None p r \<noteq> [] \<longleftrightarrow> lo \<le> length (takeWhile P r)"
  by (auto simp: rep_greedy_def Let_def)

lemma set_seq:
  "set (seq m1 m2 p r) = {a + b | a b. a \<in> set (m1 p r) \<and> b \<in> set (m2 (prev_at p r a) (drop a r))}"
  by (auto simp: seq_def)

lemma takeWhile_all: "length (takeWhile P r) = length r \<longleftrightarrow> (\<forall>c \<in> set r. P c)"
  by (induction r) auto

lemma anchored_nonempty:
  "seq bol (seq (rep_greedy P 1 None) eol) p r \<noteq> [] \<longleftrightarrow>
     p = None \<and> r \<noteq> [] \<and> (\<forall>c \<in> set r. P c)"
proof -
  let ?m = "seq bol (seq (rep_greedy P 1 None) eol)"
  have "?m p r \<noteq> [] \<longleftrightarrow> set (?m p r) \<noteq> {}" by simp
  also have "\<dots> \<longleftrightarrow> p = None \<and> (\<exists>a \<in> set (rep_greedy P 1 None p r). drop a r = [])"
    unfolding set_seq
    by (auto simp: bol_def eol_def prev_at_def split: if_splits)
  also have "(\<exists>a \<in> set (rep_greedy P 1 None p r). drop a r = []) \<longleftrightarrow>
             r \<noteq> [] \<and> length (takeWhile P r) = length r"
  proof
    assume "\<exists>a \<in> set (rep_greedy P 1 None p r). drop a r = []"
    then obtain a where a: "a \<in> set (rep_greedy P 1 None p r)" "drop a r = []" by blast
    from rep_greedy_bounds[OF a(1)] have "1 \<le> a" "a \<le> length (takeWhile P r)" by simp_all
    moreover from a(2) have "length r \<le> a" by simp
    moreover have "length (takeWhile P r) \<le> length r" by (rule length_takeWhile_le)
    ultimately show "r \<noteq> [] \<and> length (takeWhile P r) = length r" by auto
  next
    assume r: "r \<noteq> [] \<and> length (takeWhile P r) = length r"
    then have "length r \<in> set (rep_greedy P 1 None p r)"
      by (auto simp: rep_greedy_def Let_def Suc_le_eq)
    then show "\<exists>a \<in> set (rep_greedy P 1 None p r). drop a r = []" by force
  qed
  finally show ?thesis by (simp add: takeWhile_all)
qed

lemma test_anchored:
  "test (seq bol (seq (rep_greedy P 1 None) eol)) w \<longleftrightarrow> w \<noteq> [] \<and> (\<forall>c \<in> set w. P c)"
proof
  assume "test (seq bol (seq (rep_greedy P 1 None) eol)) w"
  then obtain j where j: "j \<le> length w"
      "seq bol (seq (rep_greedy P 1 None) eol) (prev_at None w j) (drop j w) \<noteq> []"
    unfolding test_iff by blast
  from j(2) have n: "prev_at None w j = None" and d: "drop j w \<noteq> []" "\<forall>c \<in> set (drop j w). P c"
    unfolding anchored_nonempty by simp_all
  from n j(1) have "j = 0" by (auto simp: prev_at_def split: if_splits)
  with d show "w \<noteq> [] \<and> (\<forall>c \<in> set w. P c)" by simp
next
  assume "w \<noteq> [] \<and> (\<forall>c \<in> set w. P c)"
  then have "seq bol (seq (rep_greedy P 1 None) eol) (prev_at None w 0) (drop 0 w) \<noteq> []"
    unfolding anchored_nonempty by (simp add: prev_at_def)
  then show "test (seq bol (seq (rep_greedy P 1 None) eol)) w" unfolding test_iff by blast
qed

lemma toLowerChar_alpha: "isAlpha c \<Longrightarrow> isLower (toLowerChar c)"
  by (auto simp: isAlpha_def isLower_def isUpper_def toLowerChar_def code_def)

lemma fillBlankQuestion_answer:
  assumes "q \<in> set (fillBlankQuestion idx s)"
  shows "\<exists>w. 4 < length w \<and> (\<forall>c \<in> set w. isAlpha c) \<and> w \<in> set (split whitespace s) \<and>
             correctAnswer q = map toLowerChar w"
proof -
  let ?words = "split whitespace s"
  from assms have ne: "meaningfulWords ?words \<noteq> []"
    by (auto simp: fillBlankQuestion_def Let_def split: list.splits)
  then obtain w blankIdx rest where m: "meaningfulWords ?words = (w, blankIdx) # rest"
    by (cases "meaningfulWords ?words") auto
  from assms m have q: "correctAnswer q = filter isLower (toLowerCase (?words ! blankIdx))"
    by (simp add: fillBlankQuestion_def Let_def)
  from m have "(w, blankIdx) \<in> set (meaningfulWords ?words)" by simp
  then have f: "4 < length w" "test alphabetic w"
    and e: "(blankIdx, w) \<in> set (enumerate 0 ?words)"
    by (auto simp: meaningfulWords_def)
  from e have i: "blankIdx < length ?words" "?words ! blankIdx = w"
    by (simp_all add: in_set_enumerate_eq)
  from f(2) have a: "\<forall>c \<in> set w. isAlpha c"
    unfolding alphabetic_def test_anchored by simp
  then have "filter isLower (toLowerCase w) = map toLowerChar w"
    by (simp add: toLowerCase_def toLowerChar_alpha)
  with q i f(1) a show ?thesis by (metis nth_mem)
qed

section \<open>Properties of the fill-in-the-blank questions\<close>

text \<open>
  C10. The stored \<open>correctAnswer\<close> of every fill-in-the-blank question of the quiz has at
  least 5 characters, all of them lowercase letters: it matches \<open>^[a-z]+$\<close> and is never
  empty.
\<close>

theorem fillblank_answer_lowercase:
  assumes "q \<in> set (generateQuiz this random)" and "qtype q = fillblank"
  shows "5 \<le> length (correctAnswer q) \<and> correctAnswer q \<noteq> [] \<and>
         (\<forall>c \<in> set (correctAnswer q). c \<in> set ''abcdefghijklmnopqrstuvwxyz'') \<and>
         test lowercaseWord (correctAnswer q)"
proof -
  from generateQuiz_elem[OF assms(1)] have "q \<in> set (fillBlankQuestions (this_sentences this))"
    using assms(2) mcqLoop_qtype[of q random 0 None "this_text this" 0] trueFalseQuestions_elem[of q]
    by (auto simp: multipleChoiceQuestions_def)
  then obtain idx s where "q \<in> set (fillBlankQuestion idx s)"
    by (auto simp: fillBlankQuestions_def Let_def)
  from fillBlankQuestion_answer[OF this] obtain w where
    w: "4 < length w" "\<forall>c \<in> set w. isAlpha c" "correctAnswer q = map toLowerChar w"
    by blast
  have l: "\<forall>c \<in> set (correctAnswer q). isLower c"
    using w(2,3) by (simp add: toLowerChar_alpha)
  have n: "5 \<le> length (correctAnswer q)" using w(1,3) by simp
  then have e: "correctAnswer q \<noteq> []" by auto
  have "test lowercaseWord (correctAnswer q)"
    unfolding lowercaseWord_def test_anchored using l e by simp
  with l n e show ?thesis by (simp add: isLower_iff)
qed

theorem fillblank_answer_lowercase_witness:
  "\<exists>q \<in> set (generateQuiz (newQuizGenerator ''one two three four five six seven eight'') (\<lambda>_. 0)).
     qtype q = fillblank \<and> correctAnswer q = ''three'' \<and> 5 \<le> length (correctAnswer q) \<and>
     test lowercaseWord (correctAnswer q)"
proof -
  let ?qs = "generateQuiz (newQuizGenerator ''one two three four five six seven eight'') (\<lambda>_. 0)"
  let ?q = "?qs ! 1"
  have m: "?q \<in> set ?qs" by (simp add: generateQuiz_example)
  have t: "qtype ?q = fillblank" by (simp add: generateQuiz_example)
  have s: "correctAnswer ?q = ''three''" by (simp add: generateQuiz_example)
  from fillblank_answer_lowercase[OF m t] t s m show ?thesis by blast
qed


section \<open>Properties of the sentence filter\<close>

lemma scan_leftmost:
  "scan m p r = Some (j, x) \<Longrightarrow> i < j \<Longrightarrow> m (prev_at p r i) (drop i r) = []"
proof (induction r arbitrary: p j i)
  case Nil
  then show ?case by (auto split: list.splits)
next
  case (Cons c cs)
  show ?case
  proof (cases "m p (c # cs)")
    case Nil
    with Cons.prems obtain j' where j': "scan m (Some c) cs = Some (j', x)" "j = Suc j'"
      by auto
    show ?thesis
    proof (cases i)
      case 0
      with Nil show ?thesis by (simp add: prev_at_def)
    next
      case (Suc k)
      with Cons.prems(2) j'(2) have k: "k < j'" by simp
      from scan_Some[OF j'(1)] k have "k \<le> length cs" by simp
      with Cons.IH[OF j'(1) k] Suc show ?thesis by (simp add: prev_at_Cons)
    qed
  next
    case (Cons y ys)
    with Cons.prems show ?thesis by auto
  qed
qed

lemma cls_empty: "cls P p r = [] \<longleftrightarrow> (r = [] \<or> \<not> P (hd r))"
  by (auto simp: cls_def split: list.splits)

lemma cls_Cons: "cls P p r = x # xs \<Longrightarrow> x = 1 \<and> r \<noteq> [] \<and> P (hd r)"
  by (auto simp: cls_def split: list.splits if_splits)

lemma matches_cls_length: "length (matches id (cls P) p r) = length (filter P r)"
proof (induction "length r" arbitrary: p r rule: less_induct)
  case less
  show ?case
  proof (cases "scan (cls P) p r")
    case None
    then have n: "\<forall>j \<le> length r. cls P (prev_at p r j) (drop j r) = []"
      by (simp add: scan_None_iff)
    have "\<not> P c" if "c \<in> set r" for c
    proof -
      from that obtain j where j: "j < length r" "r ! j = c" by (auto simp: in_set_conv_nth)
      with n have "cls P (prev_at p r j) (drop j r) = []" by simp
      with j show ?thesis by (simp add: cls_empty hd_drop_conv_nth)
    qed
    then have "filter P r = []" by (simp add: filter_empty_conv)
    with None show ?thesis by (subst matches.simps) simp
  next
    case (Some a)
    obtain j x where a: "a = (j, x)" by (cases a) auto
    from scan_Some[OF Some[unfolded a]] obtain xs where
      j: "j \<le> length r" and m: "cls P (prev_at p r j) (drop j r) = x # xs" by blast
    from cls_Cons[OF m] have x: "x = 1" and d: "drop j r \<noteq> []" and pj: "P (hd (drop j r))"
      by simp_all
    from d have jl: "j < length r" by simp
    have before: "filter P (take j r) = []"
    proof -
      have "\<not> P c" if "c \<in> set (take j r)" for c
      proof -
        from that obtain i where i: "i < j" "i < length r" "r ! i = c"
          by (auto simp: in_set_conv_nth)
        from scan_leftmost[OF Some[unfolded a] i(1)] i show ?thesis
          by (simp add: cls_empty hd_drop_conv_nth)
      qed
      then show ?thesis by (simp add: filter_empty_conv)
    qed
    have "r = take j r @ r ! j # drop (Suc j) r"
      using jl by (simp add: id_take_nth_drop[symmetric])
    then have "filter P r = filter P (take j r @ r ! j # drop (Suc j) r)" by simp
    also have "\<dots> = r ! j # filter P (drop (Suc j) r)"
      using before pj jl by (simp add: hd_drop_conv_nth)
    finally have f: "length (filter P r) = Suc (length (filter P (drop (Suc j) r)))" by simp
    have "length (drop (Suc j) r) < length r" using jl by simp
    from less.hyps[OF this] have
      ih: "length (matches id (cls P) (prev_at p r (Suc j)) (drop (Suc j) r)) =
           length (filter P (drop (Suc j) r))" .
    have "matches id (cls P) p r =
            (drop j r, 1) # matches id (cls P) (prev_at p r (Suc j)) (drop (Suc j) r)"
      using Some a x jl by (subst matches.simps) simp
    with ih f show ?thesis by simp
  qed
qed

lemma digit_matches: "length (match_all digit1 s) = digitCount s"
  by (simp add: match_all_def digit1_def digitCount_def matches_cls_length)

lemma test_letters3: "test letters3 s \<longleftrightarrow> hasAlphaRun s"
proof
  assume "test letters3 s"
  then obtain j where j: "j \<le> length s" "letters3 (prev_at None s j) (drop j s) \<noteq> []"
    unfolding test_iff by blast
  from j(2) have l: "3 \<le> length (takeWhile isAlpha (drop j s))"
    unfolding letters3_def rep_greedy_nonempty .
  have "s = take j s @ takeWhile isAlpha (drop j s) @ dropWhile isAlpha (drop j s)" by simp
  moreover have "list_all isAlpha (takeWhile isAlpha (drop j s))"
    by (auto simp: list_all_iff dest: set_takeWhileD)
  ultimately show "hasAlphaRun s" unfolding hasAlphaRun_def using l by blast
next
  assume "hasAlphaRun s"
  then obtain u v w where s: "s = u @ v @ w" and v: "3 \<le> length v" "list_all isAlpha v"
    unfolding hasAlphaRun_def by blast
  from v(2) have "takeWhile isAlpha (v @ w) = v @ takeWhile isAlpha w"
    by (simp add: list_all_iff)
  with v(1) have "3 \<le> length (takeWhile isAlpha (drop (length u) s))" using s by simp
  then have "letters3 (prev_at None s (length u)) (drop (length u) s) \<noteq> []"
    unfolding letters3_def rep_greedy_nonempty .
  moreover have "length u \<le> length s" using s by simp
  ultimately show "test letters3 s" unfolding test_iff by blast
qed

lemma keepSentence_spec: "keepSentence s = spec_retained s"
  by (simp add: keepSentence_def spec_retained_def Let_def test_letters3 digit_matches
      mult.commute)

text \<open>
  C3. The sentences retained are exactly the trimmed candidates of the split that satisfy
  all of: at least 3 whitespace-separated words, a run of at least 3 consecutive letters,
  more than 20 and fewer than 500 characters, and fewer digit characters than half the
  length. Every candidate that fails one of them is discarded.
\<close>

theorem splitSentences_filter:
  "splitSentences text = filter spec_retained (map trim (split sentenceBreak text)) \<and>
   (\<forall>s \<in> set (splitSentences text).
      3 \<le> wordCount s \<and> hasAlphaRun s \<and> 20 < length s \<and> length s < 500 \<and>
      (of_nat (digitCount s) :: rat) < (1 / 2) * of_nat (length s)) \<and>
   (\<forall>s \<in> set (map trim (split sentenceBreak text)).
      \<not> spec_retained s \<longrightarrow> s \<notin> set (splitSentences text))"
proof -
  have e: "splitSentences text = filter spec_retained (map trim (split sentenceBreak text))"
    unfolding splitSentences_def by (rule filter_cong) (simp_all add: keepSentence_spec)
  then show ?thesis by (auto simp: spec_retained_def)
qed

lemma splitSentences_example:
  "map trim (split sentenceBreak ''Cells divide in two halves. 12 3 45'') =
     [''Cells divide in two halves'', ''12 3 45''] \<and>
   splitSentences ''Cells divide in two halves. 12 3 45'' = [''Cells divide in two halves'']"
  by code_simp

theorem splitSentences_filter_witness:
  "splitSentences ''Cells divide in two halves. 12 3 45'' = [''Cells divide in two halves''] \<and>
   spec_retained ''Cells divide in two halves'' \<and>
   hasAlphaRun ''Cells divide in two halves'' \<and>
   ''12 3 45'' \<in> set (map trim (split sentenceBreak ''Cells divide in two halves. 12 3 45'')) \<and>
   \<not> spec_retained ''12 3 45''"
proof -
  let ?t = "''Cells divide in two halves. 12 3 45''"
  note th = splitSentences_filter[of ?t]
  note ex = splitSentences_example
  from th have f: "splitSentences ?t = filter spec_retained (map trim (split sentenceBreak ?t))"
    by blast
  have r: "spec_retained ''Cells divide in two halves''"
    using f ex by (auto split: if_splits)
  have n: "\<not> spec_retained ''12 3 45''"
    using f ex by (auto split: if_splits)
  from r have "hasAlphaRun ''Cells divide in two halves''" by (simp add: spec_retained_def)
  with r n ex show ?thesis by simp
qed


section \<open>Properties of the key sentences\<close>

lemma scoredSentences_elem:
  assumes "e \<in> set (scoredSentences ss)"
  shows "\<exists>idx < length ss. s_sentence e = ss ! idx \<and> s_score e = scoreSentence idx (ss ! idx)"
proof -
  from assms obtain idx s where "(idx, s) \<in> set (enumerate 0 ss)"
    and e: "e = \<lparr>s_sentence = s, s_score = scoreSentence idx s\<rparr>"
    by (auto simp: scoredSentences_def)
  then have "idx < length ss" "ss ! idx = s" by (simp_all add: in_set_enumerate_eq)
  with e show ?thesis by auto
qed

lemma sortByScore_sorted: "sorted_wrt (\<lambda>a b. s_score b \<le> s_score a) (sortByScore xs)"
proof -
  have "sorted (map (\<lambda>a. - s_score a) (sortByScore xs))"
    unfolding sortByScore_def by (rule sorted_sort_key)
  then show ?thesis by (simp add: sorted_map)
qed

text \<open>
  C6. \<open>extractKeySentences\<close> with parameter \<open>N\<close> (10 when the caller gives none) returns at
  most \<open>N\<close> sentences, each with a score above 0 at its index: the scored sentences are
  sorted by descending score, the first \<open>2N\<close> are taken, those with a positive score are
  kept, and the first \<open>N\<close> of them are returned.
\<close>

theorem extractKeySentences_top:
  "length (extractKeySentences this N) \<le> N \<and>
   (\<forall>s \<in> set (extractKeySentences this N).
      \<exists>idx < length (this_sentences this).
        this_sentences this ! idx = s \<and> 0 < scoreSentence idx s) \<and>
   mset (sortByScore (scoredSentences (this_sentences this))) =
     mset (scoredSentences (this_sentences this)) \<and>
   sorted_wrt (\<lambda>a b. s_score b \<le> s_score a)
     (sortByScore (scoredSentences (this_sentences this))) \<and>
   extractKeySentences this N =
     map s_sentence
       (take N (filter (\<lambda>e. 0 < s_score e)
         (take (2 * N) (sortByScore (scoredSentences (this_sentences this))))))"
proof -
  let ?ss = "this_sentences this"
  let ?ranked = "sortByScore (scoredSentences ?ss)"
  have a: "length (extractKeySentences this N) \<le> N"
    by (simp add: extractKeySentences_def)
  have b: "\<exists>idx < length ?ss. ?ss ! idx = s \<and> 0 < scoreSentence idx s"
    if "s \<in> set (extractKeySentences this N)" for s
  proof -
    from that obtain e where
      e: "e \<in> set (take N (filter (\<lambda>e. 0 < s_score e) (take (N * 2) ?ranked)))"
      and s: "s = s_sentence e"
      by (auto simp: extractKeySentences_def)
    from e have "e \<in> set (filter (\<lambda>e. 0 < s_score e) (take (N * 2) ?ranked))"
      by (rule in_set_takeD)
    then have p: "0 < s_score e" and "e \<in> set (take (N * 2) ?ranked)" by simp_all
    then have "e \<in> set ?ranked" by (auto dest: in_set_takeD)
    then have "e \<in> set (scoredSentences ?ss)" by (simp add: sortByScore_def)
    from scoredSentences_elem[OF this] p s show ?thesis by auto
  qed
  have c: "mset ?ranked = mset (scoredSentences ?ss)" by (simp add: sortByScore_def)
  have d: "extractKeySentences this N =
     map s_sentence (take N (filter (\<lambda>e. 0 < s_score e) (take (2 * N) ?ranked)))"
    by (simp add: extractKeySentences_def mult.commute)
  from a b c d sortByScore_sorted show ?thesis by blast
qed

lemma extractKeySentences_example:
  "extractKeySentences (newQuizGenerator ''Cells divide in two halves. 12 3 45'') 10 =
     [''Cells divide in two halves'']"
  by code_simp

theorem extractKeySentences_top_witness:
  "extractKeySentences (newQuizGenerator ''Cells divide in two halves. 12 3 45'') 10 =
     [''Cells divide in two halves''] \<and>
   (\<exists>idx < length (this_sentences (newQuizGenerator ''Cells divide in two halves. 12 3 45'')).
      0 < scoreSentence idx ''Cells divide in two halves'')"
proof -
  let ?g = "newQuizGenerator ''Cells divide in two halves. 12 3 45''"
  have "''Cells divide in two halves'' \<in> set (extractKeySentences ?g 10)"
    by (simp add: extractKeySentences_example)
  with extractKeySentences_top[of ?g 10]
  have "\<exists>idx < length (this_sentences ?g). this_sentences ?g ! idx = ''Cells divide in two halves'' \<and>
          0 < scoreSentence idx ''Cells divide in two halves''"
    by blast
  with extractKeySentences_example show ?thesis by blast
qed


section \<open>Properties of the key terms\<close>

lemma countWords_snoc:
  "countWords (ws @ [w]) = (if counted w then increment (countWords ws) w else countWords ws)"
  by (simp add: countWords_def counted_def)

lemma increment_keys:
  "map fst (increment fr w) = (if w \<in> set (map fst fr) then map fst fr else map fst fr @ [w])"
  by (induction fr w rule: increment.induct) auto

lemma increment_map_of:
  "map_of (increment fr w) =
     (map_of fr)(w \<mapsto> (case map_of fr w of None \<Rightarrow> 1 | Some c \<Rightarrow> c + 1))"
  by (induction fr w rule: increment.induct) (auto simp: fun_upd_twist)

lemma firstIndex_append: "a \<in> set ws \<Longrightarrow> firstIndex (ws @ vs) a = firstIndex ws a"
  by (simp add: firstIndex_def takeWhile_append1)

lemma firstIndex_less: "a \<in> set ws \<Longrightarrow> firstIndex ws a < length ws"
  unfolding firstIndex_def by (induction ws) auto

lemma firstIndex_new: "a \<notin> set ws \<Longrightarrow> firstIndex (ws @ [a]) a = length ws"
  unfolding firstIndex_def by (induction ws) auto

lemma countWords_inv:
  "distinct (map fst (countWords ws)) \<and>
   map_of (countWords ws) =
     (\<lambda>k. if k \<in> set ws \<and> counted k then Some (count_list ws k) else None) \<and>
   sorted_wrt (\<lambda>a b. firstIndex ws a < firstIndex ws b) (map fst (countWords ws))"
proof (induction ws rule: rev_induct)
  case Nil
  then show ?case by (simp add: countWords_def)
next
  case (snoc w ws)
  let ?fr = "countWords ws"
  from snoc have d: "distinct (map fst ?fr)"
    and m: "map_of ?fr = (\<lambda>k. if k \<in> set ws \<and> counted k then Some (count_list ws k) else None)"
    and s: "sorted_wrt (\<lambda>a b. firstIndex ws a < firstIndex ws b) (map fst ?fr)"
    by simp_all
  have keys: "set (map fst ?fr) = {k \<in> set ws. counted k}"
  proof -
    have "set (map fst ?fr) = dom (map_of ?fr)" by (simp add: dom_map_of_conv_image_fst)
    also have "\<dots> = {k \<in> set ws. counted k}" unfolding m by (auto split: if_splits)
    finally show ?thesis .
  qed
  have s': "sorted_wrt (\<lambda>a b. firstIndex (ws @ [w]) a < firstIndex (ws @ [w]) b) (map fst ?fr)"
  proof (rule sorted_wrt_mono_rel[OF _ s])
    fix a b assume "a \<in> set (map fst ?fr)" "b \<in> set (map fst ?fr)"
      and "firstIndex ws a < firstIndex ws b"
    with keys show "firstIndex (ws @ [w]) a < firstIndex (ws @ [w]) b"
      by (simp add: firstIndex_append)
  qed
  show ?case
  proof (cases "counted w")
    case False
    have "map_of ?fr =
        (\<lambda>k. if k \<in> set (ws @ [w]) \<and> counted k then Some (count_list (ws @ [w]) k) else None)"
      unfolding m using False by (auto simp: fun_eq_iff)
    with d s' False show ?thesis by (simp add: countWords_snoc)
  next
    case True
    have mo: "map_of (increment ?fr w) =
        (\<lambda>k. if k \<in> set (ws @ [w]) \<and> counted k then Some (count_list (ws @ [w]) k) else None)"
      unfolding increment_map_of m using True by (auto simp: fun_eq_iff)
    show ?thesis
    proof (cases "w \<in> set ws")
      case in_ws: True
      with True keys have "w \<in> set (map fst ?fr)" by simp
      then have "map fst (increment ?fr w) = map fst ?fr" by (simp add: increment_keys)
      with d s' mo True show ?thesis by (simp add: countWords_snoc)
    next
      case out: False
      with keys have nk: "w \<notin> set (map fst ?fr)" by simp
      then have k: "map fst (increment ?fr w) = map fst ?fr @ [w]" by (simp add: increment_keys)
      have "\<forall>a \<in> set (map fst ?fr). firstIndex (ws @ [w]) a < firstIndex (ws @ [w]) w"
        using keys out by (auto simp: firstIndex_append firstIndex_less firstIndex_new)
      with s' have "sorted_wrt (\<lambda>a b. firstIndex (ws @ [w]) a < firstIndex (ws @ [w]) b)
                      (map fst ?fr @ [w])"
        by (simp add: sorted_wrt_append)
      with d nk k mo True show ?thesis by (simp add: countWords_snoc)
    qed
  qed
qed

lemma countWords_elem:
  assumes "(t, c) \<in> set (countWords ws)"
  shows "t \<in> set ws \<and> counted t \<and> c = count_list ws t"
proof -
  from countWords_inv[of ws] have d: "distinct (map fst (countWords ws))"
    and m: "map_of (countWords ws) =
      (\<lambda>k. if k \<in> set ws \<and> counted k then Some (count_list ws k) else None)" by simp_all
  from assms d have "map_of (countWords ws) t = Some c" by simp
  then show ?thesis unfolding m by (auto split: if_splits)
qed

lemma insort_key_stable:
  fixes f :: "'a \<Rightarrow> 'k::linorder"
  assumes "sorted_wrt (\<lambda>a b. f a = f b \<longrightarrow> Q a b) ys" and "\<forall>y \<in> set ys. f x = f y \<longrightarrow> Q x y"
  shows "sorted_wrt (\<lambda>a b. f a = f b \<longrightarrow> Q a b) (insort_key f x ys)"
  using assms
proof (induction ys)
  case Nil
  then show ?case by simp
next
  case (Cons y ys)
  show ?case
  proof (cases "f x \<le> f y")
    case True
    with Cons.prems show ?thesis by simp
  next
    case False
    then have "f y \<noteq> f x" by auto
    with False Cons show ?thesis by (auto simp: set_insort_key)
  qed
qed

lemma sort_key_stable_wrt:
  fixes f :: "'a \<Rightarrow> 'k::linorder"
  assumes "sorted_wrt Q xs"
  shows "sorted_wrt (\<lambda>a b. f a = f b \<longrightarrow> Q a b) (sort_key f xs)"
  using assms
proof (induction xs)
  case Nil
  then show ?case by simp
next
  case (Cons x xs)
  then have "sorted_wrt (\<lambda>a b. f a = f b \<longrightarrow> Q a b) (sort_key f xs)"
    and "\<forall>y \<in> set (sort_key f xs). f x = f y \<longrightarrow> Q x y" by simp_all
  then show ?case by (simp add: insort_key_stable)
qed

text \<open>
  C7. Every term that \<open>extractKeyTerms\<close> returns occurs at least twice among the
  capitalized-word tokens of the normalized text, has more than 3 characters and is not in
  the stop-list. At most \<open>M\<close> terms are returned (15 when the caller gives none), without
  repetition, by descending frequency, and terms of equal frequency in the order in which
  they are first encountered.
\<close>

theorem extractKeyTerms_ranked:
  fixes this :: quizGenerator and M :: nat
  defines "words \<equiv> match_all capitalizedWord (this_text this)"
  shows "length (extractKeyTerms this M) \<le> M \<and>
   distinct (extractKeyTerms this M) \<and>
   (\<forall>t \<in> set (extractKeyTerms this M).
      2 \<le> count_list words t \<and> 3 < length t \<and> t \<notin> set commonWords) \<and>
   sorted_wrt (\<lambda>a b. count_list words b \<le> count_list words a) (extractKeyTerms this M) \<and>
   sorted_wrt (\<lambda>a b. count_list words a = count_list words b \<longrightarrow>
                       firstIndex words a < firstIndex words b) (extractKeyTerms this M)"
proof -
  let ?key = "\<lambda>(t :: string, count :: nat). - int count"
  let ?fr = "countWords words"
  let ?es = "filter (\<lambda>(t, count). 2 \<le> count) ?fr"
  let ?top = "take M (sort_key ?key ?es)"
  have res: "extractKeyTerms this M = map fst ?top"
    by (simp add: extractKeyTerms_def Let_def words_def)
  have sub: "set ?top \<subseteq> set ?es" using set_take_subset[of M "sort_key ?key ?es"] by simp
  have el: "2 \<le> c \<and> counted t \<and> c = count_list words t" if "(t, c) \<in> set ?top" for t c
  proof -
    from that sub have "(t, c) \<in> set ?fr" "2 \<le> c" by auto
    with countWords_elem[of t c words] show ?thesis by simp
  qed
  have a: "length (extractKeyTerms this M) \<le> M" by (simp add: res)
  have b: "\<forall>t \<in> set (extractKeyTerms this M).
      2 \<le> count_list words t \<and> 3 < length t \<and> t \<notin> set commonWords"
    unfolding res using el by (fastforce simp: counted_def)
  have dfr: "distinct (map fst ?fr)" using countWords_inv[of words] by simp
  have c: "distinct (extractKeyTerms this M)"
  proof -
    have "distinct (map fst ?es)" using dfr by (rule distinct_map_filter)
    moreover have "mset (map fst (sort_key ?key ?es)) = mset (map fst ?es)" by simp
    ultimately have "distinct (map fst (sort_key ?key ?es))"
      by (metis mset_eq_imp_distinct_iff)
    then have "distinct (take M (map fst (sort_key ?key ?es)))" by (rule distinct_take)
    then show ?thesis by (simp add: res take_map)
  qed
  have d: "sorted_wrt (\<lambda>a b. count_list words b \<le> count_list words a) (extractKeyTerms this M)"
  proof -
    have "sorted (map ?key (sort_key ?key ?es))" by (rule sorted_sort_key)
    then have "sorted_wrt (\<lambda>x y. ?key x \<le> ?key y) (sort_key ?key ?es)" by (simp add: sorted_map)
    then have "sorted_wrt (\<lambda>x y. ?key x \<le> ?key y) ?top" by (rule sorted_wrt_take)
    then have "sorted_wrt (\<lambda>x y. count_list words (fst y) \<le> count_list words (fst x)) ?top"
    proof (rule sorted_wrt_mono_rel[rotated])
      fix x y assume "x \<in> set ?top" "y \<in> set ?top" "?key x \<le> ?key y"
      then show "count_list words (fst y) \<le> count_list words (fst x)"
        using el[of "fst x" "snd x"] el[of "fst y" "snd y"] by (auto simp: case_prod_beta)
    qed
    then show ?thesis by (simp add: res sorted_wrt_map)
  qed
  have e: "sorted_wrt (\<lambda>a b. count_list words a = count_list words b \<longrightarrow>
                       firstIndex words a < firstIndex words b) (extractKeyTerms this M)"
  proof -
    let ?Q = "\<lambda>x y. firstIndex words (fst x) < firstIndex words (fst y)"
    have "sorted_wrt (\<lambda>a b. firstIndex words a < firstIndex words b) (map fst ?fr)"
      using countWords_inv[of words] by simp
    then have "sorted_wrt ?Q ?fr" by (simp add: sorted_wrt_map)
    then have "sorted_wrt ?Q ?es" by (rule sorted_wrt_filter)
    then have "sorted_wrt (\<lambda>a b. ?key a = ?key b \<longrightarrow> ?Q a b) (sort_key ?key ?es)"
      by (rule sort_key_stable_wrt)
    then have "sorted_wrt (\<lambda>a b. ?key a = ?key b \<longrightarrow> ?Q a b) ?top" by (rule sorted_wrt_take)
    then have "sorted_wrt (\<lambda>x y. count_list words (fst x) = count_list words (fst y) \<longrightarrow>
                 firstIndex words (fst x) < firstIndex words (fst y)) ?top"
    proof (rule sorted_wrt_mono_rel[rotated])
      fix x y assume "x \<in> set ?top" "y \<in> set ?top" "?key x = ?key y \<longrightarrow> ?Q x y"
      then show "count_list words (fst x) = count_list words (fst y) \<longrightarrow>
                 firstIndex words (fst x) < firstIndex words (fst y)"
        using el[of "fst x" "snd x"] el[of "fst y" "snd y"] by (auto simp: case_prod_beta)
    qed
    then show ?thesis by (simp add: res sorted_wrt_map)
  qed
  from a b c d e show ?thesis by blast
qed

lemma extractKeyTerms_example:
  "extractKeyTerms (newQuizGenerator ''Plants use Osmosis. The Osmosis feeds Plants and Cells'') 15 =
     [''Plants'', ''Osmosis''] \<and>
   match_all capitalizedWord
     (this_text (newQuizGenerator ''Plants use Osmosis. The Osmosis feeds Plants and Cells'')) =
     [''Plants'', ''Osmosis'', ''The'', ''Osmosis'', ''Plants'', ''Cells'']"
  by code_simp

theorem extractKeyTerms_ranked_witness:
  "extractKeyTerms (newQuizGenerator ''Plants use Osmosis. The Osmosis feeds Plants and Cells'') 15 =
     [''Plants'', ''Osmosis''] \<and>
   2 \<le> count_list (match_all capitalizedWord
     (this_text (newQuizGenerator ''Plants use Osmosis. The Osmosis feeds Plants and Cells'')))
     ''Osmosis'' \<and>
   firstIndex (match_all capitalizedWord
     (this_text (newQuizGenerator ''Plants use Osmosis. The Osmosis feeds Plants and Cells'')))
     ''Plants'' <
   firstIndex (match_all capitalizedWord
     (this_text (newQuizGenerator ''Plants use Osmosis. The Osmosis feeds Plants and Cells'')))
     ''Osmosis''"
proof -
  let ?g = "newQuizGenerator ''Plants use Osmosis. The Osmosis feeds Plants and Cells''"
  let ?ws = "match_all capitalizedWord (this_text ?g)"
  note th = extractKeyTerms_ranked[of ?g 15]
  note ex = extractKeyTerms_example
  have eq: "count_list ?ws ''Plants'' = count_list ?ws ''Osmosis''"
    by (simp add: ex)
  from th ex have "2 \<le> count_list ?ws ''Osmosis''" by simp
  moreover from th ex eq have "firstIndex ?ws ''Plants'' < firstIndex ?ws ''Osmosis''" by simp
  ultimately show ?thesis using ex by simp
qed


section \<open>Properties of the multiple-choice questions\<close>

lemma random_index:
  assumes "0 \<le> (u :: rat)" and "u < 1"
  shows "nat \<lfloor>u * of_nat (Suc i)\<rfloor> \<le> i"
proof -
  have "u * of_nat (Suc i) < of_nat (Suc i)"
    using assms by (simp add: mult_less_cancel_right2 del: of_nat_Suc)
  then have "\<lfloor>u * of_nat (Suc i)\<rfloor> < int (Suc i)"
    by (simp add: floor_less_iff del: of_nat_Suc)
  then show ?thesis by simp
qed

lemma shuffleLoop_mset:
  assumes "\<forall>k. 0 \<le> random k \<and> random k < 1" and "i < length opts"
  shows "mset (shuffleLoop random k i opts) = mset opts"
  using assms(2)
proof (induction i arbitrary: k opts)
  case 0
  then show ?case by simp
next
  case (Suc i)
  let ?j = "nat \<lfloor>random k * of_nat (Suc i + 1)\<rfloor>"
  have "?j \<le> Suc i" using random_index[of "random k" "Suc i"] assms(1) by simp
  with Suc.prems have j: "?j < length opts" by simp
  let ?opts = "opts[Suc i := opts ! ?j, ?j := opts ! Suc i]"
  have m: "mset ?opts = mset opts" using Suc.prems j by (simp add: mset_swap)
  have "i < length ?opts" using Suc.prems by simp
  from Suc.IH[OF this] m show ?case by (simp add: Let_def)
qed

lemma shuffle_mset:
  assumes "\<forall>k. 0 \<le> random k \<and> random k < 1"
  shows "mset (shuffle random k opts) = mset opts"
proof (cases opts)
  case Nil
  then show ?thesis by (simp add: shuffle_def)
next
  case (Cons a list)
  then have "length opts - 1 < length opts" by simp
  from shuffleLoop_mset[OF assms this] show ?thesis by (simp add: shuffle_def)
qed

lemma mcqLoop_options:
  "q \<in> set (mcqLoop random k p r n) \<Longrightarrow>
     \<exists>k'. options q =
       Some (shuffle random k'
         [correctAnswer q, distractor1 (correctAnswer q), distractor2 (correctAnswer q),
          ''None of the above'']) \<and> 3 \<le> wordCount (correctAnswer q)"
proof (induction "length r" arbitrary: random k p r n rule: less_induct)
  case less
  show ?case
  proof (cases rule: mcqLoop_cases[of p r random k n])
    case Done
    with less.prems show ?thesis by simp
  next
    case (Stop m)
    with less.prems show ?thesis by simp
  next
    case (Skip j a b c)
    from less.hyps[OF mcqLoop_measure[OF Skip(1)]] less.prems Skip(4) show ?thesis by simp
  next
    case (Push j a b c d)
    from less.prems Push(5) consider
      "q = \<lparr>qid = ''mcq'' @ numberToString n, qtype = mcq,
              question = ''What is '' @ trim (take a (drop j r)) @ ''?'',
              correctAnswer = d,
              options = Some (shuffle random k [d, distractor1 d, distractor2 d, ''None of the above''])\<rparr>"
      | "q \<in> set (mcqLoop random (k + 3) (prev_at p r (j + a + b + c)) (drop (j + a + b + c) r) (n + 1))"
      by auto
    then show ?thesis
    proof cases
      case 1
      with Push(4) show ?thesis by auto
    next
      case 2
      from less.hyps[OF mcqLoop_measure[OF Push(1)] 2] show ?thesis .
    qed
  qed
qed

text \<open>
  C2, as amended. For a source of random numbers in \<open>[0, 1)\<close>, the options of every
  multiple-choice question are 4 entries, a permutation of the stored \<open>correctAnswer\<close>,
  the two half-definition distractors and \<open>"None of the above"\<close>. At least one entry
  equals \<open>correctAnswer\<close>, and exactly one does if and only if the definition differs from
  its three distractors.
\<close>

theorem mcq_options_permutation:
  assumes "\<forall>k. 0 \<le> random k \<and> random k < 1"
    and "q \<in> set (multipleChoiceQuestions random text)"
  shows "\<exists>opts. options q = Some opts \<and> length opts = 4 \<and>
           mset opts = {#correctAnswer q, distractor1 (correctAnswer q),
                         distractor2 (correctAnswer q), ''None of the above''#} \<and>
           correctAnswer q \<in> set opts \<and>
           (count_list opts (correctAnswer q) = 1 \<longleftrightarrow>
              correctAnswer q \<noteq> distractor1 (correctAnswer q) \<and>
              correctAnswer q \<noteq> distractor2 (correctAnswer q) \<and>
              correctAnswer q \<noteq> ''None of the above'')"
proof -
  let ?ca = "correctAnswer q"
  let ?l = "[?ca, distractor1 ?ca, distractor2 ?ca, ''None of the above'']"
  from assms(2) mcqLoop_options[of q random 0 None "text" 0] obtain k' where
    o: "options q = Some (shuffle random k' ?l)"
    by (auto simp: multipleChoiceQuestions_def)
  let ?opts = "shuffle random k' ?l"
  have m: "mset ?opts = mset ?l" by (rule shuffle_mset[OF assms(1)])
  then have "size (mset ?opts) = size (mset ?l)" by simp
  then have len: "length ?opts = 4" by simp
  from m have "set_mset (mset ?opts) = set_mset (mset ?l)" by simp
  then have mem: "?ca \<in> set ?opts" by simp
  have "count_list ?opts ?ca = count (mset ?opts) ?ca" by (simp add: count_mset)
  also have "\<dots> = count (mset ?l) ?ca" by (simp only: m)
  finally have cnt: "count_list ?opts ?ca = count (mset ?l) ?ca" .
  have "(count_list ?opts ?ca = 1) \<longleftrightarrow>
          (?ca \<noteq> distractor1 ?ca \<and> ?ca \<noteq> distractor2 ?ca \<and> ?ca \<noteq> ''None of the above'')"
    unfolding cnt by auto
  with o len m mem show ?thesis by simp
qed

lemma mcq_example:
  "multipleChoiceQuestions (constantRandom (1 / 2))
     ''Osmosis is the movement of water molecules across a membrane.'' =
   [\<lparr>qid = ''mcq0'', qtype = mcq, question = ''What is Osmosis?'',
      correctAnswer = ''the movement of water molecules across a membrane'',
      options = Some [''the movement of water molecules across a membrane'',
                      ''None of the above'', ''the movement of water (incorrect)'',
                      ''molecules across a membrane (incorrect)'']\<rparr>]"
  by code_simp

lemma mcq_example_distractors:
  "distractor1 ''the movement of water molecules across a membrane'' =
     ''the movement of water (incorrect)'' \<and>
   distractor2 ''the movement of water molecules across a membrane'' =
     ''molecules across a membrane (incorrect)''"
  by code_simp

theorem mcq_options_permutation_witness:
  "\<exists>q \<in> set (multipleChoiceQuestions (constantRandom (1 / 2))
                ''Osmosis is the movement of water molecules across a membrane.'').
     question q = ''What is Osmosis?'' \<and>
     (\<exists>opts. options q = Some opts \<and> length opts = 4 \<and> count_list opts (correctAnswer q) = 1)"
proof -
  let ?r = "constantRandom (1 / 2)"
  let ?t = "''Osmosis is the movement of water molecules across a membrane.''"
  let ?q = "hd (multipleChoiceQuestions ?r ?t)"
  have r: "\<forall>k. 0 \<le> ?r k \<and> ?r k < 1" by (simp add: constantRandom_def)
  have m: "?q \<in> set (multipleChoiceQuestions ?r ?t)" by (simp add: mcq_example)
  have c: "correctAnswer ?q = ''the movement of water molecules across a membrane''"
    and n: "question ?q = ''What is Osmosis?''"
    by (simp_all add: mcq_example)
  have d: "correctAnswer ?q \<noteq> distractor1 (correctAnswer ?q) \<and>
           correctAnswer ?q \<noteq> distractor2 (correctAnswer ?q) \<and>
           correctAnswer ?q \<noteq> ''None of the above''"
    unfolding c by (simp add: mcq_example_distractors)
  from mcq_options_permutation[OF r m] d
  have "\<exists>opts. options ?q = Some opts \<and> length opts = 4 \<and> count_list opts (correctAnswer ?q) = 1"
    by blast
  with m n show ?thesis by blast
qed

text \<open>
  C2 as stated fails on a text that defines something as \<open>None of the above\<close>: the
  definition is the third distractor, and two of the four options equal \<open>correctAnswer\<close>.
\<close>

theorem mcq_options_counterexample:
  "map correctAnswer (multipleChoiceQuestions (constantRandom (1 / 2))
     ''Water is None of the above. this filler sentence only pads the input so that its length reaches one hundred characters.'') =
     [''None of the above''] \<and>
   map options (multipleChoiceQuestions (constantRandom (1 / 2))
     ''Water is None of the above. this filler sentence only pads the input so that its length reaches one hundred characters.'') =
     [Some [''None of the above'', ''None of the above'', ''None of (incorrect)'',
            ''the above (incorrect)'']] \<and>
   count_list [''None of the above'', ''None of the above'', ''None of (incorrect)'',
               ''the above (incorrect)''] ''None of the above'' = 2"
  by code_simp


text \<open>
  The second half-definition distractor can equal the definition as well: with three words,
  each \<open>(incorrect)\<close>, the last two words and the suffix \<open>(incorrect)\<close> give the
  definition back.
\<close>

lemma mcq_second_half_example:
  "map options (multipleChoiceQuestions (constantRandom (1 / 2))
     ''Tags are (incorrect) (incorrect) (incorrect). this filler sentence only pads the input so that its length reaches one hundred characters.'') =
     [Some [''(incorrect) (incorrect) (incorrect)'', ''None of the above'',
            ''(incorrect) (incorrect)'', ''(incorrect) (incorrect) (incorrect)'']]"
  by code_simp

section \<open>Properties of the grader\<close>

text \<open>
  The handler compares the normalized value of a text input with the \<open>dataset.correct\<close> of
  that input, and the last text input of a question element decides.
\<close>

lemma gradeQuestion_last_text:
  "gradeQuestion (inputs @ [TextInput v d]) = (filter isLower (toLowerCase v) = d)"
  by (simp add: gradeQuestion_def)








end
